theory Spec2Isabelle
  imports Main "HOL-Library.Word"
begin

unbundle bit_operations_syntax

section \<open>The link graph as the plugin sees it\<close>

text \<open>
  The example plugin of \<^verbatim>\<open>LLJITWithObjectLinkingLayerPlugin.cpp\<close> reads a link graph
  only through \<^verbatim>\<open>G.sections()\<close>, \<^verbatim>\<open>S.getName()\<close>, \<^verbatim>\<open>S.blocks()\<close>,
  \<^verbatim>\<open>B->getAddress()\<close>, \<^verbatim>\<open>B->isZeroFill()\<close>, \<^verbatim>\<open>B->getSize()\<close> and
  \<^verbatim>\<open>B->getContent()\<close>. The classes themselves live in JITLink's headers; the records
  below carry the values those accessors return, as section 3 of the specification lists
  them. \<^verbatim>\<open>JITTargetAddress\<close> is \<^verbatim>\<open>uint64_t\<close>, and the sum
  \<^verbatim>\<open>B->getAddress() + B->getSize()\<close> is computed in that type, so the address and the
  size are 64-bit words here.
\<close>

type_synonym JITTargetAddress = "64 word"

record Block =
  getAddress :: JITTargetAddress
  getSize :: "64 word"
  isZeroFill :: bool
  getContent :: "8 word list"

record Section =
  getName :: string
  blocks :: "Block list"

record LinkGraph =
  sections :: "Section list"

text \<open>
  The data-model invariant of a block with content: its buffer holds exactly
  \<^verbatim>\<open>getSize()\<close> bytes. In JITLink the content is a view of \<^verbatim>\<open>getSize()\<close> bytes by
  construction; here the buffer is a field of its own, and the invariant is stated where
  it is needed.
\<close>

definition content_fits :: "Block \<Rightarrow> bool" where
  "content_fits B \<longleftrightarrow> length (getContent B) = unat (getSize B)"

text \<open>The sum \<^verbatim>\<open>base + size\<close> does not overflow 64 bits.\<close>

definition no_wrap :: "Block \<Rightarrow> bool" where
  "no_wrap B \<longleftrightarrow> unat (getAddress B) + unat (getSize B) < 2 ^ 64"

section \<open>What is written to the diagnostic stream\<close>

text \<open>
  Every statement \<^verbatim>\<open>dbgs() << ...\<close> of \<^verbatim>\<open>printLinkGraph\<close> is one constructor, in the
  order of the source: lines 90, 92, 94, 107, 109, 111 and the three \<^verbatim>\<open>"\n"\<close> of lines
  113, 116 and 117.
\<close>

datatype item =
    TitleLine string
  | SectionLine string
  | BlockLine JITTargetAddress
  | LineHeader JITTargetAddress
  | BlankCell
  | ByteCell "8 word"
  | LineBreak

text \<open>
  Reading \<^verbatim>\<open>Data[i]\<close> outside the buffer is undefined behaviour in C++; the model
  reports it instead of inventing a byte.
\<close>

datatype error = OutOfRange

definition LineWidth :: JITTargetAddress where
  "LineWidth = 16"

text \<open>The body of the \<^verbatim>\<open>for\<close> loop, lines 106 to 113, for one value of \<^verbatim>\<open>CurAddr\<close>.\<close>

definition loopBody :: "8 word list \<Rightarrow> JITTargetAddress \<Rightarrow> JITTargetAddress \<Rightarrow> error + item list" where
  "loopBody Data StartAddr CurAddr =
     (let hdr = (if CurAddr mod LineWidth = 0 then [LineHeader CurAddr] else []);
          brk = (if CurAddr mod LineWidth = LineWidth - 1 then [LineBreak] else [])
      in if CurAddr < StartAddr then Inr (hdr @ [BlankCell] @ brk)
         else if unat (CurAddr - StartAddr) < length Data
              then Inr (hdr @ [ByteCell (Data ! unat (CurAddr - StartAddr))] @ brk)
              else Inl OutOfRange)"

text \<open>
  The loop \<^verbatim>\<open>for (CurAddr = InitAddr; CurAddr != EndAddr; ++CurAddr)\<close>. The counter is a
  64-bit word and \<^verbatim>\<open>++\<close> wraps, so the loop ends after \<open>unat (EndAddr - CurAddr)\<close> rounds
  whatever the two addresses are.
\<close>

function hexdump :: "8 word list \<Rightarrow> JITTargetAddress \<Rightarrow> JITTargetAddress \<Rightarrow> JITTargetAddress
    \<Rightarrow> error + item list" where
  "hexdump Data StartAddr EndAddr CurAddr =
     (if CurAddr = EndAddr then Inr []
      else case loopBody Data StartAddr CurAddr of
             Inl e \<Rightarrow> Inl e
           | Inr xs \<Rightarrow>
               (case hexdump Data StartAddr EndAddr (CurAddr + 1) of
                  Inl e \<Rightarrow> Inl e
                | Inr ys \<Rightarrow> Inr (xs @ ys)))"
  by pat_completeness auto
termination
proof (relation "measure (\<lambda>(Data, StartAddr, EndAddr, CurAddr). unat (EndAddr - CurAddr))")
  show "wf (measure (\<lambda>(Data, StartAddr, EndAddr, CurAddr). unat (EndAddr - CurAddr)))"
    by simp
next
  fix Data :: "8 word list" and StartAddr EndAddr CurAddr :: JITTargetAddress
  assume "CurAddr \<noteq> EndAddr"
  then have nz: "EndAddr - CurAddr \<noteq> 0" by simp
  have step: "EndAddr - (CurAddr + 1) = (EndAddr - CurAddr) - 1" by simp
  have "unat ((EndAddr - CurAddr) - 1) < unat (EndAddr - CurAddr)"
    using nz by (simp add: unat_minus_one unat_gt_0)
  then have "unat (EndAddr - (CurAddr + 1)) < unat (EndAddr - CurAddr)"
    by (simp only: step)
  then show "((Data, StartAddr, EndAddr, CurAddr + 1), (Data, StartAddr, EndAddr, CurAddr))
      \<in> measure (\<lambda>(Data, StartAddr, EndAddr, CurAddr). unat (EndAddr - CurAddr))"
    by simp
qed

declare hexdump.simps [simp del]

text \<open>One round of the loop over \<^verbatim>\<open>S.blocks()\<close>: lines 94 to 117.\<close>

definition printBlock :: "Block \<Rightarrow> error + item list" where
  "printBlock B =
     (if isZeroFill B then Inr [BlockLine (getAddress B)]
      else
        let InitAddr = getAddress B AND NOT (LineWidth - 1);
            StartAddr = getAddress B;
            EndAddr = getAddress B + getSize B;
            Data = getContent B
        in case hexdump Data StartAddr EndAddr InitAddr of
             Inl e \<Rightarrow> Inl e
           | Inr cells \<Rightarrow>
               Inr ([BlockLine (getAddress B)] @ cells
                    @ (if EndAddr mod LineWidth \<noteq> 0 then [LineBreak] else [])
                    @ [LineBreak]))"

fun printBlocks :: "Block list \<Rightarrow> error + item list" where
  "printBlocks [] = Inr []"
| "printBlocks (B # Bs) =
     (case printBlock B of
        Inl e \<Rightarrow> Inl e
      | Inr xs \<Rightarrow> (case printBlocks Bs of Inl e \<Rightarrow> Inl e | Inr ys \<Rightarrow> Inr (xs @ ys)))"

fun printSections :: "Section list \<Rightarrow> error + item list" where
  "printSections [] = Inr []"
| "printSections (S # Ss) =
     (case printBlocks (blocks S) of
        Inl e \<Rightarrow> Inl e
      | Inr xs \<Rightarrow>
          (case printSections Ss of
             Inl e \<Rightarrow> Inl e
           | Inr ys \<Rightarrow> Inr ([SectionLine (getName S)] @ xs @ ys)))"

definition printLinkGraph :: "LinkGraph \<Rightarrow> string \<Rightarrow> error + item list" where
  "printLinkGraph G Title =
     (case printSections (sections G) of
        Inl e \<Rightarrow> Inl e
      | Inr xs \<Rightarrow> Inr ([TitleLine Title] @ xs))"

section \<open>The stream as state, and the two passes of the plugin\<close>

text \<open>
  \<^verbatim>\<open>printLinkGraph\<close> takes the graph by non-const reference and writes to the
  process-wide stream \<^verbatim>\<open>dbgs()\<close>. Both are the state a pass runs on; the stream is
  the sequence of writes made so far.
\<close>

record Session =
  linkGraph :: LinkGraph
  dbgs :: "item list"

definition printLinkGraph_dbgs :: "string \<Rightarrow> Session \<Rightarrow> error + Session" where
  "printLinkGraph_dbgs Title s =
     (case printLinkGraph (linkGraph s) Title of
        Inl e \<Rightarrow> Inl e
      | Inr out \<Rightarrow> Inr (s\<lparr>dbgs := dbgs s @ out\<rparr>))"

text \<open>
  A pass is callable as \<^verbatim>\<open>Error(jitlink::LinkGraph&)\<close>. The two lambdas of
  \<^verbatim>\<open>modifyPassConfig\<close> call \<^verbatim>\<open>printLinkGraph\<close> and return \<^verbatim>\<open>Error::success()\<close>.
\<close>

type_synonym Pass = "Session \<Rightarrow> error + Session"

record PassConfiguration =
  PostPrunePasses :: "Pass list"
  PostFixupPasses :: "Pass list"

text \<open>
  \<^verbatim>\<open>MyPlugin::modifyPassConfig\<close>, lines 54 to 64: two \<^verbatim>\<open>push_back\<close>s, first on
  \<^verbatim>\<open>PostPrunePasses\<close>, then on \<^verbatim>\<open>PostFixupPasses\<close>. The arguments \<^verbatim>\<open>MR\<close> and \<^verbatim>\<open>TT\<close>
  are not used. The return type is \<^verbatim>\<open>void\<close>: there is no error to return.
\<close>

definition modifyPassConfig :: "PassConfiguration \<Rightarrow> PassConfiguration" where
  "modifyPassConfig Config =
     (let Config1 = Config\<lparr>PostPrunePasses :=
            PostPrunePasses Config @ [printLinkGraph_dbgs ''Before fixup:'']\<rparr>
      in Config1\<lparr>PostFixupPasses :=
            PostFixupPasses Config1 @ [printLinkGraph_dbgs ''After fixup:'']\<rparr>)"

text \<open>
  Modelled from the spec: the dispatcher that owns the registered plugins
  (\<^verbatim>\<open>ObjectLinkingLayer\<close>) is not among the sources. Section 4.1: "invokes each
  plugin's configuration hook in order, letting each append zero or more passes to either
  list". A plugin is given by its hook for the unit at hand.
\<close>

type_synonym Plugin = "PassConfiguration \<Rightarrow> PassConfiguration"

definition configurePasses :: "Plugin list \<Rightarrow> PassConfiguration \<Rightarrow> PassConfiguration" where
  "configurePasses Plugins Config = fold (\<lambda>P C. P C) Plugins Config"

text \<open>
  Modelled from the spec: the contract of a hook, section 4.1. It appends \<open>pre\<close> to the
  pre-fixup list and \<open>post\<close> to the post-fixup list, and does nothing else.
\<close>

definition appends :: "Plugin \<Rightarrow> Pass list \<Rightarrow> Pass list \<Rightarrow> bool" where
  "appends P pre post \<longleftrightarrow>
     (\<forall>C. P C = C\<lparr>PostPrunePasses := PostPrunePasses C @ pre,
                   PostFixupPasses := PostFixupPasses C @ post\<rparr>)"

text \<open>A configuration to which no plugin has contributed yet.\<close>

definition emptyConfig :: PassConfiguration where
  "emptyConfig = \<lparr>PostPrunePasses = [], PostFixupPasses = []\<rparr>"

section \<open>The text of the writes\<close>

text \<open>
  Modelled from the spec: \<^verbatim>\<open>formatv("{0:x-2}", byte)\<close> belongs to LLVM's support
  library, which is not among the sources. Section 4.2: "emit the byte's value as two hex
  digits, most-significant-nibble first, followed by a separating space".
\<close>

definition hexDigit :: "nat \<Rightarrow> char" where
  "hexDigit n = ''0123456789abcdef'' ! n"

definition formatByte :: "8 word \<Rightarrow> string" where
  "formatByte b = [hexDigit (unat b div 16), hexDigit (unat b mod 16)]"

text \<open>
  The characters of one write. The format of an address, \<^verbatim>\<open>formatv("{0:x16}", addr)\<close>,
  is the parameter \<open>fmt\<close>: nothing below depends on it.
\<close>

fun text_of :: "(JITTargetAddress \<Rightarrow> string) \<Rightarrow> item \<Rightarrow> string" where
  "text_of fmt (TitleLine Title) = ''--- '' @ Title @ ''---'' @ [CHR 0x0A]"
| "text_of fmt (SectionLine Name) = ''  section: '' @ Name @ [CHR 0x0A]"
| "text_of fmt (BlockLine a) = ''    block@'' @ fmt a @ '':'' @ [CHR 0x0A]"
| "text_of fmt (LineHeader a) = ''    '' @ fmt a @ '': ''"
| "text_of fmt BlankCell = ''   ''"
| "text_of fmt (ByteCell b) = formatByte b @ '' ''"
| "text_of fmt LineBreak = [CHR 0x0A]"

definition render_text :: "(JITTargetAddress \<Rightarrow> string) \<Rightarrow> item list \<Rightarrow> string" where
  "render_text fmt out = concat (map (text_of fmt) out)"

fun isByteCell :: "item \<Rightarrow> bool" where
  "isByteCell (ByteCell b) = True"
| "isByteCell x = False"

fun isBlankCell :: "item \<Rightarrow> bool" where
  "isBlankCell BlankCell = True"
| "isBlankCell x = False"

fun isCell :: "item \<Rightarrow> bool" where
  "isCell BlankCell = True"
| "isCell (ByteCell b) = True"
| "isCell x = False"

section \<open>The hex dump as section 4.2 describes it\<close>

text \<open>
  The description of the dump in the words of the specification, on natural numbers, to
  be compared with \<open>printBlock\<close>: a header when the running address is a multiple of 16,
  a blank cell below the base and a byte cell from the base on, a line break when the
  running address is 15 modulo 16.
\<close>

definition header_at :: "JITTargetAddress \<Rightarrow> item list" where
  "header_at a = (if 16 dvd unat a then [LineHeader a] else [])"

definition break_at :: "JITTargetAddress \<Rightarrow> item list" where
  "break_at a = (if unat a mod 16 = 15 then [LineBreak] else [])"

definition cell_at :: "Block \<Rightarrow> JITTargetAddress \<Rightarrow> item" where
  "cell_at B a =
     (if unat a < unat (getAddress B) then BlankCell
      else ByteCell (getContent B ! (unat a - unat (getAddress B))))"

definition line_items :: "Block \<Rightarrow> JITTargetAddress \<Rightarrow> item list" where
  "line_items B a = header_at a @ [cell_at B a] @ break_at a"

text \<open>
  The running addresses: from the base rounded down to a multiple of 16, one by one, as
  many as the 64-bit counter needs to reach \<^verbatim>\<open>base + size\<close>.
\<close>

definition rounds :: "Block \<Rightarrow> nat" where
  "rounds B = (unat (getAddress B) mod 16 + unat (getSize B)) mod 2 ^ 64"

definition running :: "Block \<Rightarrow> JITTargetAddress list" where
  "running B = map (\<lambda>k. of_nat (16 * (unat (getAddress B) div 16) + k)) [0..<rounds B]"

definition trailer :: "Block \<Rightarrow> item list" where
  "trailer B =
     (if 16 dvd unat (getAddress B) + unat (getSize B) then [] else [LineBreak]) @ [LineBreak]"

text \<open>Every block that has content has a buffer of exactly its size.\<close>

definition well_formed :: "LinkGraph \<Rightarrow> bool" where
  "well_formed G \<longleftrightarrow>
     list_all (\<lambda>S. list_all (\<lambda>B. isZeroFill B \<or> content_fits B) (blocks S)) (sections G)"

text \<open>
  A block of 16 bytes whose base is 8 below the top of the address space:
  \<^verbatim>\<open>base + size\<close> wraps to 8.
\<close>

definition topBlock :: Block where
  "topBlock = \<lparr>getAddress = 0xFFFFFFFFFFFFFFF8, getSize = 16, isZeroFill = False,
     getContent = [0x10, 0x11, 0x12, 0x13, 0x14, 0x15, 0x16, 0x17,
                   0x18, 0x19, 0x1A, 0x1B, 0x1C, 0x1D, 0x1E, 0x1F]\<rparr>"

text \<open>The number of byte cells in the dump of a block, when the dump succeeds.\<close>

definition byteCells :: "Block \<Rightarrow> nat option" where
  "byteCells B =
     (case printBlock B of Inl e \<Rightarrow> None | Inr out \<Rightarrow> Some (length (filter isByteCell out)))"

text \<open>The block of the literal case of section 8, with five bytes of content.\<close>

definition literalBlock :: Block where
  "literalBlock = \<lparr>getAddress = 0x1003, getSize = 5, isZeroFill = False,
     getContent = [0x48, 0x65, 0x6C, 0x6C, 0x6F]\<rparr>"

text \<open>A block of three bytes that starts on one dump line and ends on the next.\<close>

definition straddlingBlock :: Block where
  "straddlingBlock = \<lparr>getAddress = 0x0E, getSize = 3, isZeroFill = False,
     getContent = [0xAA, 0xBB, 0xCC]\<rparr>"

text \<open>
  Every block that has content has a buffer of exactly its size and ends inside the
  64-bit address space.
\<close>

definition addressable :: "LinkGraph \<Rightarrow> bool" where
  "addressable G \<longleftrightarrow>
     list_all (\<lambda>S. list_all (\<lambda>B. isZeroFill B \<or> content_fits B \<and> no_wrap B) (blocks S))
       (sections G)"

text \<open>A graph of two sections: two blocks with content, one zero-filled block.\<close>

definition exampleGraph :: LinkGraph where
  "exampleGraph = \<lparr>sections =
     [\<lparr>getName = ''__text'', blocks = [literalBlock, straddlingBlock]\<rparr>,
      \<lparr>getName = ''__bss'',
       blocks = [\<lparr>getAddress = 0x2000, getSize = 4096, isZeroFill = True, getContent = []\<rparr>]\<rparr>]\<rparr>"

section \<open>Arithmetic of the loop\<close>

lemma mask15: "(15 :: 64 word) = mask 4"
  by (simp add: mask_eq_exp_minus_1)

lemma and_not_mask4: "(x :: 64 word) AND NOT (mask 4) = push_bit 4 (drop_bit 4 x)"
  by (rule bit_eqI) (auto simp: bit_simps)

lemma InitAddr_shift: "(x :: 64 word) AND NOT (LineWidth - 1) = push_bit 4 (drop_bit 4 x)"
  by (simp add: LineWidth_def mask15 and_not_mask4)

lemma unat_InitAddr: "unat ((x :: 64 word) AND NOT (LineWidth - 1)) = 16 * (unat x div 16)"
proof -
  have le: "16 * (unat x div 16) \<le> unat x" by simp
  have "unat x < 2 ^ 64" using unsigned_less [of x] by simp
  with le have lt: "16 * (unat x div 16) < 2 ^ 64" by linarith
  have "unat (push_bit 4 (drop_bit 4 x)) = take_bit 64 (push_bit 4 (drop_bit 4 (unat x)))"
    by (simp add: unsigned_push_bit_eq unat_drop_bit_eq)
  also have "\<dots> = take_bit 64 (16 * (unat x div 16))"
    by (simp add: push_bit_eq_mult drop_bit_eq_div mult.commute)
  also have "\<dots> = 16 * (unat x div 16)"
    using lt by (simp add: take_bit_nat_eq_self)
  finally show ?thesis by (simp only: InitAddr_shift)
qed

lemma InitAddr_le: "(x :: 64 word) AND NOT (LineWidth - 1) \<le> x"
  by (simp add: word_le_nat_alt unat_InitAddr)

lemma unat_mod16: "unat ((a :: 64 word) mod LineWidth) = unat a mod 16"
  by (simp add: LineWidth_def unat_mod)

lemma hdr_cond: "((a :: 64 word) mod LineWidth = 0) = (16 dvd unat a)"
  by (metis mod_eq_0_iff_dvd unat_eq_zero unat_mod16)

lemma brk_cond: "((a :: 64 word) mod LineWidth = LineWidth - 1) = (unat a mod 16 = 15)"
proof -
  have "((a mod LineWidth) = LineWidth - 1) = (unat (a mod LineWidth) = unat (LineWidth - 1))"
    by (simp add: word_unat_eq_iff)
  also have "\<dots> = (unat a mod 16 = 15)"
    by (simp add: unat_mod16) (simp add: LineWidth_def)
  finally show ?thesis .
qed

lemma unat_span:
  "unat ((b :: 64 word) + z - (b AND NOT (LineWidth - 1))) = (unat b mod 16 + unat z) mod 2 ^ 64"
proof -
  have eq: "b + z - (b AND NOT (LineWidth - 1)) = (b - (b AND NOT (LineWidth - 1))) + z" by simp
  have off: "unat (b - (b AND NOT (LineWidth - 1))) = unat b mod 16"
    by (simp add: unat_sub InitAddr_le unat_InitAddr minus_mult_div_eq_mod)
  have "unat ((b - (b AND NOT (LineWidth - 1))) + z) = (unat b mod 16 + unat z) mod 2 ^ 64"
    by (simp only: unat_word_ariths(1) off) simp
  then show ?thesis by (simp only: eq)
qed

text \<open>
  The loop unrolled: when each of the \<open>n\<close> rounds it needs succeeds with the writes
  \<open>f\<close> gives, the loop succeeds with their concatenation.
\<close>

lemma hexdump_steps:
  "unat (EndAddr - CurAddr) = n \<Longrightarrow>
   \<forall>k<n. loopBody Data StartAddr (CurAddr + of_nat k) = Inr (f (CurAddr + of_nat k)) \<Longrightarrow>
   hexdump Data StartAddr EndAddr CurAddr = Inr (concat (map (\<lambda>k. f (CurAddr + of_nat k)) [0..<n]))"
proof (induction n arbitrary: CurAddr)
  case 0
  then have "CurAddr = EndAddr" by (simp add: unat_eq_0)
  then show ?case by (simp add: hexdump.simps)
next
  case (Suc n)
  from Suc.prems(1) have ne: "CurAddr \<noteq> EndAddr" by auto
  have step: "EndAddr - (CurAddr + 1) = (EndAddr - CurAddr) - 1" by simp
  have "EndAddr - CurAddr \<noteq> 0" using ne by simp
  then have "unat ((EndAddr - CurAddr) - 1) = n"
    using Suc.prems(1) by (simp add: unat_minus_one)
  then have n: "unat (EndAddr - (CurAddr + 1)) = n" by (simp only: step)
  have here: "loopBody Data StartAddr CurAddr = Inr (f CurAddr)"
    using Suc.prems(2) [rule_format, of 0] by simp
  have rest: "\<forall>k<n. loopBody Data StartAddr (CurAddr + 1 + of_nat k) = Inr (f (CurAddr + 1 + of_nat k))"
  proof (intro allI impI)
    fix k assume "k < n"
    then have "Suc k < Suc n" by simp
    from Suc.prems(2) [rule_format, OF this]
    show "loopBody Data StartAddr (CurAddr + 1 + of_nat k) = Inr (f (CurAddr + 1 + of_nat k))"
      by (simp add: ac_simps)
  qed
  have ih: "hexdump Data StartAddr EndAddr (CurAddr + 1)
      = Inr (concat (map (\<lambda>k. f (CurAddr + 1 + of_nat k)) [0..<n]))"
    by (rule Suc.IH [OF n rest])
  have shift: "map (\<lambda>k. f (CurAddr + of_nat k)) [0..<Suc n]
      = f CurAddr # map (\<lambda>k. f (CurAddr + 1 + of_nat k)) [0..<n]"
    by (simp add: upt_conv_Cons map_Suc_upt [symmetric] ac_simps del: upt_Suc)
  show ?case
    by (subst hexdump.simps) (simp only: ne here ih shift if_False sum.case concat.simps)
qed

text \<open>
  One round at the \<open>k\<close>-th running address writes what the specification says, provided
  the buffer holds at least \<^verbatim>\<open>getSize()\<close> bytes. The counter may wrap.
\<close>

lemma loopBody_line_items:
  assumes fits: "unat (getSize B) \<le> length (getContent B)" and k: "k < rounds B"
  shows "loopBody (getContent B) (getAddress B) ((getAddress B AND NOT (LineWidth - 1)) + of_nat k)
         = Inr (line_items B ((getAddress B AND NOT (LineWidth - 1)) + of_nat k))"
proof -
  define S where "S = unat (getAddress B)"
  define z where "z = unat (getSize B)"
  define I where "I = 16 * (S div 16)"
  define a where "a = (getAddress B AND NOT (LineWidth - 1)) + of_nat k"
  have S: "S < 2 ^ 64" unfolding S_def using unsigned_less [of "getAddress B"] by simp
  have IS: "I \<le> S" by (simp add: I_def)
  have kn: "k < (S mod 16 + z) mod 2 ^ 64" using k by (simp add: rounds_def S_def z_def)
  have k64: "k < 2 ^ 64"
  proof -
    have "(S mod 16 + z) mod 2 ^ 64 < (2 ^ 64 :: nat)" by simp
    with kn show ?thesis by linarith
  qed
  have kb: "k < S mod 16 + z"
  proof -
    have "(S mod 16 + z) mod 2 ^ 64 \<le> S mod 16 + z" by (rule mod_less_eq_dividend)
    with kn show ?thesis by linarith
  qed
  have ua: "unat a = (I + k) mod 2 ^ 64"
    by (simp add: a_def unat_word_ariths unat_InitAddr I_def S_def unat_of_nat mod_add_right_eq)
  have cellok: "\<not> unat a < S \<Longrightarrow> unat a - S < z"
  proof -
    assume ge: "\<not> unat a < S"
    show "unat a - S < z"
    proof (cases "I + k < 2 ^ 64")
      case True
      then have "unat a = I + k" by (simp add: ua)
      moreover have "S mod 16 = S - I" by (simp add: I_def minus_mult_div_eq_mod)
      ultimately show ?thesis using kb ge IS by linarith
    next
      case False
      then have "(I + k) mod 2 ^ 64 = I + k - 2 ^ 64"
        using k64 IS S by (simp add: mod_if)
      then have "unat a < I" using k64 False by (simp add: ua)
      with IS ge show ?thesis by linarith
    qed
  qed
  have lt: "(a < getAddress B) = (unat a < S)" by (simp add: word_less_nat_alt S_def)
  have sub: "\<not> unat a < S \<Longrightarrow> unat (a - getAddress B) = unat a - S"
    by (simp add: unat_sub word_le_nat_alt S_def)
  have len: "z \<le> length (getContent B)" using fits by (simp add: z_def)
  have inb: "\<not> unat a < S \<Longrightarrow> unat a - S < length (getContent B)"
    using cellok len by fastforce
  show ?thesis
    unfolding a_def [symmetric]
    using inb sub
    by (simp add: loopBody_def line_items_def header_at_def break_at_def cell_at_def
        hdr_cond brk_cond lt S_def [symmetric])
qed

text \<open>
  The dump of a block with content, in closed form: the block line, the writes of each
  running address in turn, and the line breaks that close the dump.
\<close>

lemma InitAddr_of_nat: "(x :: 64 word) AND NOT (LineWidth - 1) = of_nat (16 * (unat x div 16))"
proof -
  have "of_nat (unat (x AND NOT (LineWidth - 1))) = x AND NOT (LineWidth - 1)" by simp
  then show ?thesis by (simp only: unat_InitAddr)
qed

lemma running_from_InitAddr:
  "running B = map (\<lambda>k. (getAddress B AND NOT (LineWidth - 1)) + of_nat k) [0..<rounds B]"
  by (simp add: running_def InitAddr_of_nat)

lemma EndAddr_boundary:
  "(((b :: 64 word) + z) mod LineWidth \<noteq> 0) = (\<not> 16 dvd unat b + unat z)"
proof -
  have "(16 :: nat) dvd 2 ^ 64" by simp
  then have "(16 dvd (unat b + unat z) mod 2 ^ 64) = (16 dvd unat b + unat z)"
    by (rule dvd_mod_iff)
  then show ?thesis by (simp add: hdr_cond unat_word_ariths(1))
qed

lemma hexdump_running:
  assumes fits: "unat (getSize B) \<le> length (getContent B)"
  shows "hexdump (getContent B) (getAddress B) (getAddress B + getSize B)
           (getAddress B AND NOT (LineWidth - 1))
         = Inr (concat (map (line_items B) (running B)))"
proof -
  have n: "unat (getAddress B + getSize B - (getAddress B AND NOT (LineWidth - 1))) = rounds B"
    by (simp only: unat_span rounds_def)
  have body: "\<forall>k<rounds B.
      loopBody (getContent B) (getAddress B) ((getAddress B AND NOT (LineWidth - 1)) + of_nat k)
      = Inr (line_items B ((getAddress B AND NOT (LineWidth - 1)) + of_nat k))"
    using loopBody_line_items [OF fits] by blast
  show ?thesis
    using hexdump_steps [OF n body] by (simp add: running_from_InitAddr comp_def)
qed

lemma printBlock_dump:
  assumes fits: "unat (getSize B) \<le> length (getContent B)" and content: "\<not> isZeroFill B"
  shows "printBlock B
         = Inr (BlockLine (getAddress B) # concat (map (line_items B) (running B)) @ trailer B)"
  using content
  by (simp add: printBlock_def Let_def hexdump_running [OF fits] trailer_def EndAddr_boundary)

section \<open>Zero-filled blocks\<close>

text \<open>
  Claim C4. For a zero-filled block, whatever its size, \<open>printBlock\<close> writes the line
  with the block's address and nothing else: no line header, no cell, no line break.
\<close>

theorem zero_fill_address_line_only:
  "isZeroFill B \<Longrightarrow> printBlock B = Inr [BlockLine (getAddress B)]"
  by (simp add: printBlock_def)

theorem zero_fill_address_line_only_witness:
  "isZeroFill \<lparr>getAddress = 0x2000, getSize = 4096, isZeroFill = True, getContent = []\<rparr>
   \<and> printBlock \<lparr>getAddress = 0x2000, getSize = 4096, isZeroFill = True, getContent = []\<rparr>
     = Inr [BlockLine 0x2000]"
  using zero_fill_address_line_only
    [of "\<lparr>getAddress = 0x2000, getSize = 4096, isZeroFill = True, getContent = []\<rparr>"]
  by simp

section \<open>The literal case of the specification\<close>

text \<open>
  Claim C5. A block with content at base 0x1003 of size 5: the dump line starts at
  0x1000, three blank cells come first, then the five content bytes as five byte cells,
  nothing is written for the addresses from 0x1008 on, and there is one line header.
  The two line breaks at the end are the one for a block that does not end on a line
  boundary and the one written after every dump.
\<close>

theorem literal_case_0x1003:
  "printBlock \<lparr>getAddress = 0x1003, getSize = 5, isZeroFill = False,
               getContent = [b0, b1, b2, b3, b4]\<rparr>
   = Inr [BlockLine 0x1003, LineHeader 0x1000, BlankCell, BlankCell, BlankCell,
          ByteCell b0, ByteCell b1, ByteCell b2, ByteCell b3, ByteCell b4,
          LineBreak, LineBreak]"
  by (simp add: printBlock_def LineWidth_def hexdump.simps loopBody_def)

section \<open>Blocks with content of size zero\<close>

lemma header_first_only:
  "concat (map (\<lambda>k. (if k = 0 then [h] else []) @ [c]) [0..<n])
   = (if n = 0 then [] else h # replicate n c)"
proof (cases n)
  case 0
  then show ?thesis by simp
next
  case (Suc m)
  have tail: "concat (map (\<lambda>k. (if k = 0 then [h] else []) @ [c]) (map Suc [0..<m])) = replicate m c"
    by (induction m) (simp_all add: replicate_append_same)
  have "[0..<Suc m] = 0 # map Suc [0..<m]"
    by (simp add: upt_conv_Cons map_Suc_upt del: upt_Suc)
  then show ?thesis using tail Suc by (simp del: upt_Suc)
qed

lemma empty_block_lines:
  assumes z: "getSize B = 0"
  shows "concat (map (line_items B) (running B))
         = (if 16 dvd unat (getAddress B) then []
            else LineHeader (of_nat (16 * (unat (getAddress B) div 16)))
                 # replicate (unat (getAddress B) mod 16) BlankCell)"
proof -
  define S where "S = unat (getAddress B)"
  define I where "I = 16 * (S div 16)"
  have S: "S < 2 ^ 64" unfolding S_def using unsigned_less [of "getAddress B"] by simp
  have r: "rounds B = S mod 16" 
  proof -
    have "S mod 16 < 2 ^ 64" using S by (meson le_less_trans mod_less_eq_dividend)
    then show ?thesis by (simp add: rounds_def z S_def)
  qed
  have each: "line_items B (of_nat (I + k)) = (if k = 0 then [LineHeader (of_nat I)] else []) @ [BlankCell]"
    if "k < S mod 16" for k
  proof -
    have IS: "I + S mod 16 = S" by (simp add: I_def)
    then have lt: "I + k < S" using that by linarith
    then have u: "unat (of_nat (I + k) :: 64 word) = I + k"
    proof -
      have "unat (of_nat (I + k) :: 64 word) = (I + k) mod 2 ^ 64"
        by (subst unat_of_nat) simp
      with lt S show ?thesis by simp
    qed
    have "k < 16" using that by (meson less_trans mod_less_divisor zero_less_numeral)
    then have m: "(I + k) mod 16 = k" by (simp add: I_def)
    then have d: "(16 dvd I + k) = (k = 0)" by (simp add: dvd_eq_mod_eq_0)
    have "S mod 16 \<le> 15" 
    proof -
      have "S mod 16 < 16" by simp
      then show ?thesis by linarith
    qed
    with that have "k \<noteq> 15" by linarith
    with m d lt show ?thesis
      by (auto simp add: line_items_def header_at_def break_at_def cell_at_def u S_def [symmetric]
          simp del: of_nat_add)
  qed
  have "map (line_items B) (running B)
        = map (\<lambda>k. (if k = 0 then [LineHeader (of_nat I)] else []) @ [BlankCell]) [0..<S mod 16]"
    using each by (simp add: running_def r S_def [symmetric] I_def [symmetric] comp_def del: of_nat_add)
  then show ?thesis
    by (simp only: header_first_only) (simp add: S_def I_def dvd_eq_mod_eq_0)
qed

text \<open>
  Claim C10. A block that is not zero-filled and has size 0 still gets a dump when its
  base is not a multiple of 16: one line header at the base rounded down, one blank cell
  for each address from there up to the base (excluded), a line break for the unfinished
  line and the line break written after every dump. When the base is a multiple of 16 the
  loop does not run, and only the block line and the final line break are written. The two
  outputs differ, so the short one occurs only for an aligned base.
\<close>

theorem empty_block_dump:
  assumes "\<not> isZeroFill B" and "getSize B = 0"
  shows "printBlock B =
     Inr (if 16 dvd unat (getAddress B) then [BlockLine (getAddress B), LineBreak]
          else BlockLine (getAddress B)
               # LineHeader (of_nat (16 * (unat (getAddress B) div 16)))
               # replicate (unat (getAddress B) mod 16) BlankCell @ [LineBreak, LineBreak])
   \<and> (printBlock B = Inr [BlockLine (getAddress B), LineBreak]) = (16 dvd unat (getAddress B))"
proof -
  have fits: "unat (getSize B) \<le> length (getContent B)" using assms(2) by simp
  show ?thesis
    by (simp add: printBlock_dump [OF fits assms(1)] empty_block_lines [OF assms(2)] trailer_def assms(2))
qed

theorem empty_block_dump_witness:
  "\<not> isZeroFill \<lparr>getAddress = 0x1003, getSize = 0, isZeroFill = False, getContent = []\<rparr>
   \<and> getSize \<lparr>getAddress = 0x1003, getSize = 0, isZeroFill = False, getContent = []\<rparr> = 0
   \<and> printBlock \<lparr>getAddress = 0x1003, getSize = 0, isZeroFill = False, getContent = []\<rparr>
     = Inr [BlockLine 0x1003, LineHeader 0x1000, BlankCell, BlankCell, BlankCell, LineBreak, LineBreak]"
  using empty_block_dump [of "\<lparr>getAddress = 0x1003, getSize = 0, isZeroFill = False, getContent = []\<rparr>"]
  by (simp add: numeral_3_eq_3)

section \<open>Where the dump starts and where it stops\<close>

lemma rounds_span:
  "rounds B = unat (getAddress B + getSize B - (getAddress B AND NOT (LineWidth - 1)))"
  by (simp only: unat_span rounds_def)

lemma running_empty_iff:
  "(running B = []) = (getAddress B AND NOT (LineWidth - 1) = getAddress B + getSize B)"
proof -
  have "(running B = []) = (rounds B = 0)" by (simp add: running_def)
  also have "\<dots> = (getAddress B + getSize B - (getAddress B AND NOT (LineWidth - 1)) = 0)"
    by (simp only: rounds_span unat_eq_0)
  also have "\<dots> = (getAddress B AND NOT (LineWidth - 1) = getAddress B + getSize B)"
    by auto
  finally show ?thesis .
qed

lemma EndAddr_not_running: "getAddress B + getSize B \<notin> set (running B)"
proof
  assume "getAddress B + getSize B \<in> set (running B)"
  then obtain k where k: "k < rounds B"
    and e: "getAddress B + getSize B = (getAddress B AND NOT (LineWidth - 1)) + of_nat k"
    by (auto simp add: running_from_InitAddr)
  from e have "getAddress B + getSize B - (getAddress B AND NOT (LineWidth - 1)) = of_nat k"
    by simp
  then have r: "rounds B = unat (of_nat k :: 64 word)" by (simp only: rounds_span)
  have "unat (of_nat k :: 64 word) \<le> k" by (simp add: unat_of_nat)
  with r k show False by linarith
qed

lemma running_ends:
  assumes ne: "running B \<noteq> []"
  shows "hd (running B) = getAddress B AND NOT (LineWidth - 1)"
    and "last (running B) + 1 = getAddress B + getSize B"
proof -
  define n where "n = rounds B"
  have pos: "0 < n" using ne by (simp add: running_def n_def)
  show "hd (running B) = getAddress B AND NOT (LineWidth - 1)"
    using pos by (simp add: running_from_InitAddr n_def [symmetric] hd_map upt_conv_Cons)
  have "last (running B) = (getAddress B AND NOT (LineWidth - 1)) + of_nat (n - 1)"
    using pos by (simp add: running_from_InitAddr n_def [symmetric] last_map)
  then have "last (running B) + 1 = (getAddress B AND NOT (LineWidth - 1)) + of_nat (Suc (n - 1))"
    by simp
  also have "\<dots> = (getAddress B AND NOT (LineWidth - 1)) + of_nat n" using pos by simp
  also have "of_nat n = getAddress B + getSize B - (getAddress B AND NOT (LineWidth - 1))"
    by (simp only: n_def rounds_span) simp
  finally show "last (running B) + 1 = getAddress B + getSize B" by simp
qed

lemma first_header:
  assumes ne: "running B \<noteq> []"
  shows "\<exists>rest. concat (map (line_items B) (running B))
           = LineHeader (getAddress B AND NOT (LineWidth - 1)) # rest"
proof -
  from ne have split: "running B = hd (running B) # tl (running B)" by simp
  have d: "16 dvd unat (getAddress B AND NOT (LineWidth - 1))"
    by (simp only: unat_InitAddr) simp
  have "line_items B (getAddress B AND NOT (LineWidth - 1))
        = LineHeader (getAddress B AND NOT (LineWidth - 1))
          # cell_at B (getAddress B AND NOT (LineWidth - 1))
          # break_at (getAddress B AND NOT (LineWidth - 1))"
    using d by (simp add: line_items_def header_at_def)
  then have "concat (map (line_items B) (hd (running B) # tl (running B)))
      = LineHeader (getAddress B AND NOT (LineWidth - 1))
        # (cell_at B (getAddress B AND NOT (LineWidth - 1))
           # break_at (getAddress B AND NOT (LineWidth - 1))
           @ concat (map (line_items B) (tl (running B))))"
    by (simp add: running_ends(1) [OF ne])
  then show ?thesis using split by metis
qed

text \<open>
  Claim C3. The line width is 16. In the dump of a block with content the running
  addresses start at \<^verbatim>\<open>base AND NOT (LineWidth - 1)\<close>, which is the base rounded down to
  a multiple of 16 (the greatest multiple of 16 that is at most the base), follow one
  another, and stop before \<^verbatim>\<open>base + size\<close>, the sum being taken in 64 bits as the
  source computes it: that address gets no cell, and the last address that gets one is
  its predecessor. The dump is empty exactly when the two bounds coincide; otherwise the
  first write after the block line is the line header of the rounded-down base.
\<close>

theorem dump_bounds:
  assumes "content_fits B" and "\<not> isZeroFill B"
  shows "LineWidth = 16
    \<and> unat (getAddress B AND NOT (LineWidth - 1)) = 16 * (unat (getAddress B) div 16)
    \<and> unat (getAddress B AND NOT (LineWidth - 1)) \<le> unat (getAddress B)
    \<and> unat (getAddress B) < unat (getAddress B AND NOT (LineWidth - 1)) + 16
    \<and> unat (getAddress B + getSize B) = (unat (getAddress B) + unat (getSize B)) mod 2 ^ 64
    \<and> printBlock B
        = Inr (BlockLine (getAddress B) # concat (map (line_items B) (running B)) @ trailer B)
    \<and> running B
        = map (\<lambda>k. (getAddress B AND NOT (LineWidth - 1)) + of_nat k)
            [0..<unat (getAddress B + getSize B - (getAddress B AND NOT (LineWidth - 1)))]
    \<and> getAddress B + getSize B \<notin> set (running B)
    \<and> (running B = []) = (getAddress B AND NOT (LineWidth - 1) = getAddress B + getSize B)
    \<and> (running B \<noteq> [] \<longrightarrow>
          hd (running B) = getAddress B AND NOT (LineWidth - 1)
        \<and> last (running B) + 1 = getAddress B + getSize B
        \<and> (\<exists>rest. printBlock B
              = Inr (BlockLine (getAddress B)
                     # LineHeader (getAddress B AND NOT (LineWidth - 1)) # rest)))"
proof -
  have fits: "unat (getSize B) \<le> length (getContent B)"
    using assms(1) by (simp add: content_fits_def)
  have lw: "LineWidth = 16" by (simp add: LineWidth_def)
  have rd: "unat (getAddress B AND NOT (LineWidth - 1)) = 16 * (unat (getAddress B) div 16)"
    by (rule unat_InitAddr)
  have lo: "unat (getAddress B AND NOT (LineWidth - 1)) \<le> unat (getAddress B)"
    by (simp add: rd)
  have "unat (getAddress B) < 16 * (unat (getAddress B) div 16) + 16" by presburger
  then have up: "unat (getAddress B) < unat (getAddress B AND NOT (LineWidth - 1)) + 16"
    by (simp only: rd)
  have en: "unat (getAddress B + getSize B) = (unat (getAddress B) + unat (getSize B)) mod 2 ^ 64"
    by (simp add: unat_word_ariths(1))
  have pb: "printBlock B
        = Inr (BlockLine (getAddress B) # concat (map (line_items B) (running B)) @ trailer B)"
    by (rule printBlock_dump [OF fits assms(2)])
  have run: "running B
        = map (\<lambda>k. (getAddress B AND NOT (LineWidth - 1)) + of_nat k)
            [0..<unat (getAddress B + getSize B - (getAddress B AND NOT (LineWidth - 1)))]"
    by (simp only: running_from_InitAddr rounds_span)
  have first: "\<exists>rest. printBlock B
              = Inr (BlockLine (getAddress B)
                     # LineHeader (getAddress B AND NOT (LineWidth - 1)) # rest)"
    if ne: "running B \<noteq> []"
  proof -
    from first_header [OF ne] obtain rest where
      "concat (map (line_items B) (running B))
        = LineHeader (getAddress B AND NOT (LineWidth - 1)) # rest" by blast
    then have "printBlock B = Inr (BlockLine (getAddress B)
        # LineHeader (getAddress B AND NOT (LineWidth - 1)) # (rest @ trailer B))"
      by (simp add: pb)
    then show ?thesis by blast
  qed
  show ?thesis
    using lw rd lo up en pb run EndAddr_not_running [of B] running_empty_iff [of B]
      running_ends first
    by blast
qed

theorem dump_bounds_witness:
  "content_fits literalBlock \<and> \<not> isZeroFill literalBlock
   \<and> unat (getAddress literalBlock AND NOT (LineWidth - 1)) = 0x1000
   \<and> unat (getAddress literalBlock + getSize literalBlock) = 0x1008
   \<and> running literalBlock \<noteq> []
   \<and> hd (running literalBlock) = 0x1000
   \<and> last (running literalBlock) + 1 = 0x1008
   \<and> (\<exists>rest. printBlock literalBlock = Inr (BlockLine 0x1003 # LineHeader 0x1000 # rest))"
proof -
  have c: "content_fits literalBlock" by (simp add: literalBlock_def content_fits_def)
  have z: "\<not> isZeroFill literalBlock" by (simp add: literalBlock_def)
  have i: "getAddress literalBlock AND NOT (LineWidth - 1) = 0x1000"
    by (simp add: literalBlock_def LineWidth_def)
  have e: "getAddress literalBlock + getSize literalBlock = 0x1008"
    by (simp add: literalBlock_def)
  have a: "getAddress literalBlock = 0x1003" by (simp add: literalBlock_def)
  have ui: "unat (getAddress literalBlock AND NOT (LineWidth - 1)) = 0x1000"
    by (simp add: i)
  have ue: "unat (getAddress literalBlock + getSize literalBlock) = 0x1008"
    by (simp add: e)
  have ne: "running literalBlock \<noteq> []"
    by (simp add: running_empty_iff i e)
  note db = dump_bounds [OF c z]
  from db ne have h: "hd (running literalBlock) = getAddress literalBlock AND NOT (LineWidth - 1)"
    by blast
  from db ne have l: "last (running literalBlock) + 1 = getAddress literalBlock + getSize literalBlock"
    by blast
  from db ne have p: "\<exists>rest. printBlock literalBlock
      = Inr (BlockLine (getAddress literalBlock)
             # LineHeader (getAddress literalBlock AND NOT (LineWidth - 1)) # rest)"
    by blast
  show ?thesis
    using c z ne h [unfolded i] l [unfolded e] p [unfolded i] ui ue by (simp add: a)
qed

section \<open>Blank cells and byte cells\<close>

lemma cells_of_lines: "filter isCell (concat (map (line_items B) as)) = map (cell_at B) as"
  by (induction as) (simp_all add: line_items_def header_at_def break_at_def cell_at_def)

lemma running_no_wrap:
  assumes "no_wrap B"
  shows "running B = map of_nat [16 * (unat (getAddress B) div 16) ..< unat (getAddress B) + unat (getSize B)]"
proof -
  define S where "S = unat (getAddress B)"
  define z where "z = unat (getSize B)"
  have "S mod 16 + z \<le> S + z" by simp
  with assms have "S mod 16 + z < 2 ^ 64" by (simp add: no_wrap_def S_def z_def)
  then have r: "rounds B = S mod 16 + z" by (simp add: rounds_def S_def z_def)
  have "map (\<lambda>k. k + 16 * (S div 16)) [0..<S mod 16 + z] = [16 * (S div 16)..<S mod 16 + z + 16 * (S div 16)]"
    by (rule map_add_upt)
  moreover have "S mod 16 + z + 16 * (S div 16) = S + z" by simp
  ultimately have "map (\<lambda>k. 16 * (S div 16) + k) [0..<S mod 16 + z] = [16 * (S div 16)..<S + z]"
    by (simp add: add.commute)
  then have "map of_nat (map (\<lambda>k. 16 * (S div 16) + k) [0..<S mod 16 + z]) = map of_nat [16 * (S div 16)..<S + z]"
    by (simp only:)
  then show ?thesis
    by (simp add: running_def r S_def [symmetric] z_def [symmetric] comp_def del: of_nat_add)
qed

lemma cells_no_wrap:
  assumes fits: "content_fits B" and nw: "no_wrap B"
  shows "map (cell_at B) (running B)
         = replicate (unat (getAddress B) mod 16) BlankCell @ map ByteCell (getContent B)"
proof -
  define S where "S = unat (getAddress B)"
  define z where "z = unat (getSize B)"
  define I where "I = 16 * (S div 16)"
  have len: "length (getContent B) = z" using fits by (simp add: content_fits_def z_def)
  have top: "S + z < 2 ^ 64" using nw by (simp add: no_wrap_def S_def z_def)
  have IS: "I + S mod 16 = S" by (simp add: I_def)
  have run: "running B = map of_nat [I..<S + z]"
    by (simp only: running_no_wrap [OF nw] I_def S_def z_def)
  have u: "unat (of_nat j :: 64 word) = j" if "j < S + z" for j
  proof -
    have "unat (of_nat j :: 64 word) = j mod 2 ^ 64" by (subst unat_of_nat) simp
    with that top show ?thesis by simp
  qed
  show ?thesis
  proof (rule nth_equalityI)
    show "length (map (cell_at B) (running B))
          = length (replicate (unat (getAddress B) mod 16) BlankCell @ map ByteCell (getContent B))"
      using IS by (simp add: run len S_def [symmetric])
  next
    fix i assume "i < length (map (cell_at B) (running B))"
    then have i: "I + i < S + z" using IS by (simp add: run)
    have "map (cell_at B) (running B) ! i = cell_at B (of_nat (I + i))"
      using i by (simp add: run del: of_nat_add)
    also have "\<dots> = (if I + i < S then BlankCell else ByteCell (getContent B ! (I + i - S)))"
      by (simp only: cell_at_def u [OF i] S_def)
    also have "\<dots> = (replicate (S mod 16) BlankCell @ map ByteCell (getContent B)) ! i"
    proof (cases "I + i < S")
      case True
      then have "i < S mod 16" using IS by linarith
      then show ?thesis using True by (simp add: nth_append)
    next
      case False
      then have ge: "\<not> i < S mod 16" using IS by linarith
      have "I + i - S = i - S mod 16" using IS by linarith
      moreover have "i - S mod 16 < length (getContent B)" using i IS ge len by linarith
      ultimately show ?thesis using False ge by (simp add: nth_append)
    qed
    finally show "map (cell_at B) (running B) ! i
        = (replicate (unat (getAddress B) mod 16) BlankCell @ map ByteCell (getContent B)) ! i"
      by (simp only: S_def)
  qed
qed

lemma byte_cells_count:
  "length (filter isByteCell (replicate n BlankCell @ map ByteCell bs)) = length bs"
  by (induction n) (simp_all add: comp_def)

lemma isByteCell_isCell: "filter isByteCell (filter isCell out) = filter isByteCell out"
proof -
  have "isByteCell x \<and> isCell x \<longleftrightarrow> isByteCell x" for x by (cases x) simp_all
  then show ?thesis by (simp add: conj_commute)
qed

lemma isBlankCell_isCell: "filter isBlankCell (filter isCell out) = filter isBlankCell out"
proof -
  have "isBlankCell x \<and> isCell x \<longleftrightarrow> isBlankCell x" for x by (cases x) simp_all
  then show ?thesis by (simp add: conj_commute)
qed

lemma blank_cells_count:
  "length (filter isBlankCell (replicate n BlankCell @ map ByteCell bs)) = n"
  by (induction bs) (simp_all add: comp_def)

text \<open>
  Claim C1, amended. For a block with content whose \<^verbatim>\<open>base + size\<close> does not overflow
  64 bits, the running addresses are those from the base rounded down to a multiple of 16
  up to \<^verbatim>\<open>base + size\<close> (excluded), there is one cell for each of them, in order: a blank
  cell for each address below the base and then one byte cell for each content byte. So
  the number of byte cells is the size of the block. A byte cell is as wide as a blank
  cell: two hex digits and a space against three spaces.
\<close>

theorem cells_of_block:
  assumes "content_fits B" and "\<not> isZeroFill B" and "no_wrap B"
  shows "\<exists>out. printBlock B = Inr out
     \<and> running B = map of_nat [16 * (unat (getAddress B) div 16) ..< unat (getAddress B) + unat (getSize B)]
     \<and> filter isCell out = map (cell_at B) (running B)
     \<and> filter isCell out = replicate (unat (getAddress B) mod 16) BlankCell @ map ByteCell (getContent B)
     \<and> length (filter isBlankCell out) = unat (getAddress B) mod 16
     \<and> length (filter isByteCell out) = unat (getSize B)
     \<and> byteCells B = Some (unat (getSize B))
     \<and> length (text_of fmt (ByteCell b)) = length (text_of fmt BlankCell)"
proof -
  have fits: "unat (getSize B) \<le> length (getContent B)" using assms(1) by (simp add: content_fits_def)
  define out where "out = BlockLine (getAddress B) # concat (map (line_items B) (running B)) @ trailer B"
  have pb: "printBlock B = Inr out" by (simp only: out_def printBlock_dump [OF fits assms(2)])
  have cells: "filter isCell out = map (cell_at B) (running B)"
    by (simp add: out_def cells_of_lines trailer_def)
  have shape: "filter isCell out = replicate (unat (getAddress B) mod 16) BlankCell @ map ByteCell (getContent B)"
    by (simp only: cells cells_no_wrap [OF assms(1) assms(3)])
  have "length (filter isByteCell (filter isCell out)) = length (getContent B)"
    by (simp only: shape byte_cells_count)
  then have cnt: "length (filter isByteCell out) = unat (getSize B)"
    using assms(1) by (simp only: isByteCell_isCell content_fits_def)
  have "length (filter isBlankCell (filter isCell out)) = unat (getAddress B) mod 16"
    by (simp only: shape blank_cells_count)
  then have blanks: "length (filter isBlankCell out) = unat (getAddress B) mod 16"
    by (simp only: isBlankCell_isCell)
  have bc: "byteCells B = Some (unat (getSize B))" by (simp add: byteCells_def pb cnt)
  have w: "length (text_of fmt (ByteCell b)) = length (text_of fmt BlankCell)"
    by (simp add: formatByte_def)
  show ?thesis using pb running_no_wrap [OF assms(3)] cells shape blanks cnt bc w by blast
qed

theorem cells_of_block_witness:
  "content_fits literalBlock \<and> \<not> isZeroFill literalBlock \<and> no_wrap literalBlock
   \<and> byteCells literalBlock = Some 5"
  using cells_of_block [where B = literalBlock and b = 0 and fmt = "\<lambda>a. []"]
  by (auto simp add: literalBlock_def content_fits_def no_wrap_def)

text \<open>
  Claim C1 as it is stated, for every block with content, fails where \<^verbatim>\<open>base + size\<close>
  wraps around. The block of 16 bytes at \<^verbatim>\<open>0xFFFFFFFFFFFFFFF8\<close> has \<^verbatim>\<open>EndAddr = 8\<close>; the
  counter wraps to 0 after the first dump line, and from there on it is below
  \<^verbatim>\<open>StartAddr\<close>, so the last eight cells are blank: 8 byte cells for a size of 16.
\<close>

theorem cells_of_wrapping_block:
  "content_fits topBlock \<and> \<not> isZeroFill topBlock
   \<and> printBlock topBlock =
       Inr [BlockLine 0xFFFFFFFFFFFFFFF8, LineHeader 0xFFFFFFFFFFFFFFF0,
            BlankCell, BlankCell, BlankCell, BlankCell, BlankCell, BlankCell, BlankCell, BlankCell,
            ByteCell 0x10, ByteCell 0x11, ByteCell 0x12, ByteCell 0x13,
            ByteCell 0x14, ByteCell 0x15, ByteCell 0x16, ByteCell 0x17, LineBreak,
            LineHeader 0,
            BlankCell, BlankCell, BlankCell, BlankCell, BlankCell, BlankCell, BlankCell, BlankCell,
            LineBreak, LineBreak]
   \<and> byteCells topBlock = Some 8
   \<and> unat (getSize topBlock) = 16
   \<and> byteCells topBlock \<noteq> Some (unat (getSize topBlock))"
proof -
  have pb: "printBlock topBlock =
       Inr [BlockLine 0xFFFFFFFFFFFFFFF8, LineHeader 0xFFFFFFFFFFFFFFF0,
            BlankCell, BlankCell, BlankCell, BlankCell, BlankCell, BlankCell, BlankCell, BlankCell,
            ByteCell 0x10, ByteCell 0x11, ByteCell 0x12, ByteCell 0x13,
            ByteCell 0x14, ByteCell 0x15, ByteCell 0x16, ByteCell 0x17, LineBreak,
            LineHeader 0,
            BlankCell, BlankCell, BlankCell, BlankCell, BlankCell, BlankCell, BlankCell, BlankCell,
            LineBreak, LineBreak]"
    by (simp add: topBlock_def printBlock_def LineWidth_def hexdump.simps loopBody_def)
  have bc: "byteCells topBlock = Some 8" by (simp add: byteCells_def pb)
  have sz: "unat (getSize topBlock) = 16" by (simp add: topBlock_def)
  have "content_fits topBlock \<and> \<not> isZeroFill topBlock" by (simp add: topBlock_def content_fits_def)
  with pb bc sz show ?thesis by simp
qed

section \<open>Line headers and line breaks\<close>

text \<open>
  Claim C2. In the dump of a block with content, each running address contributes, in
  this order, a line header exactly when it is a multiple of 16, its cell, and a line
  break exactly when it is 15 modulo 16. After the last address one more line break is
  written if and only if \<^verbatim>\<open>base + size\<close> is not a multiple of 16; then comes the line
  break that follows every dump.
\<close>

theorem headers_and_breaks:
  assumes "content_fits B" and "\<not> isZeroFill B"
  shows "printBlock B =
     Inr (BlockLine (getAddress B)
          # concat (map (\<lambda>a. (if 16 dvd unat a then [LineHeader a] else [])
                            @ [cell_at B a]
                            @ (if unat a mod 16 = 15 then [LineBreak] else []))
                        (running B))
          @ (if 16 dvd unat (getAddress B) + unat (getSize B) then [] else [LineBreak])
          @ [LineBreak])"
proof -
  have fits: "unat (getSize B) \<le> length (getContent B)" using assms(1) by (simp add: content_fits_def)
  have "line_items B = (\<lambda>a. (if 16 dvd unat a then [LineHeader a] else [])
                            @ [cell_at B a]
                            @ (if unat a mod 16 = 15 then [LineBreak] else []))"
    by (rule ext) (simp add: line_items_def header_at_def break_at_def)
  then show ?thesis
    using printBlock_dump [OF fits assms(2)] by (simp add: trailer_def)
qed

theorem headers_and_breaks_witness:
  "content_fits straddlingBlock \<and> \<not> isZeroFill straddlingBlock
   \<and> printBlock straddlingBlock =
       Inr [BlockLine 0x0E, LineHeader 0,
            BlankCell, BlankCell, BlankCell, BlankCell, BlankCell, BlankCell, BlankCell,
            BlankCell, BlankCell, BlankCell, BlankCell, BlankCell, BlankCell, BlankCell,
            ByteCell 0xAA, ByteCell 0xBB, LineBreak,
            LineHeader 0x10, ByteCell 0xCC, LineBreak, LineBreak]"
  using headers_and_breaks [of straddlingBlock]
  by (simp add: straddlingBlock_def content_fits_def running_def rounds_def cell_at_def upt_conv_Cons)

section \<open>No read outside the buffer\<close>

lemma printBlock_total:
  assumes "isZeroFill B \<or> content_fits B"
  shows "\<exists>out. printBlock B = Inr out"
proof (cases "isZeroFill B")
  case True
  then show ?thesis by (simp add: printBlock_def)
next
  case False
  with assms have "unat (getSize B) \<le> length (getContent B)" by (simp add: content_fits_def)
  from printBlock_dump [OF this False] show ?thesis by blast
qed

lemma printBlocks_total:
  "list_all (\<lambda>B. isZeroFill B \<or> content_fits B) Bs \<Longrightarrow> \<exists>out. printBlocks Bs = Inr out"
proof (induction Bs)
  case Nil
  then show ?case by simp
next
  case (Cons B Bs)
  then obtain xs ys where "printBlock B = Inr xs" and "printBlocks Bs = Inr ys"
    using printBlock_total [of B] by auto
  then show ?case by simp
qed

lemma printSections_total:
  "list_all (\<lambda>S. list_all (\<lambda>B. isZeroFill B \<or> content_fits B) (blocks S)) Ss
   \<Longrightarrow> \<exists>out. printSections Ss = Inr out"
proof (induction Ss)
  case Nil
  then show ?case by simp
next
  case (Cons S Ss)
  then obtain xs ys where "printBlocks (blocks S) = Inr xs" and "printSections Ss = Inr ys"
    using printBlocks_total [of "blocks S"] by auto
  then show ?case by simp
qed

lemma printLinkGraph_total: "well_formed G \<Longrightarrow> \<exists>out. printLinkGraph G Title = Inr out"
proof -
  assume "well_formed G"
  then obtain xs where "printSections (sections G) = Inr xs"
    using printSections_total [of "sections G"] by (auto simp add: well_formed_def)
  then show ?thesis by (simp add: printLinkGraph_def)
qed

lemma addressable_well_formed: "addressable G \<Longrightarrow> well_formed G"
  by (auto simp add: addressable_def well_formed_def list_all_iff)

lemma offset_in_buffer:
  assumes fits: "unat (getSize B) \<le> length (getContent B)"
    and a: "a \<in> set (running B)" and ge: "\<not> a < getAddress B"
  shows "unat (a - getAddress B) < length (getContent B)"
proof -
  from a obtain k where k: "k < rounds B"
    and ak: "a = (getAddress B AND NOT (LineWidth - 1)) + of_nat k"
    by (auto simp add: running_from_InitAddr)
  have "loopBody (getContent B) (getAddress B) a = Inr (line_items B a)"
    unfolding ak by (rule loopBody_line_items [OF fits k])
  then show ?thesis using ge
    by (simp add: loopBody_def Let_def split: if_splits)
qed

text \<open>
  Claim C8. When every block with content has a buffer of exactly its size and a
  \<^verbatim>\<open>base + size\<close> that does not overflow, \<open>printLinkGraph\<close> ends without an error, and
  the offset \<^verbatim>\<open>CurAddr - StartAddr\<close> read at each running address that is not below the
  base lies inside the buffer. Reading outside the buffer is the only error there is.
\<close>

theorem accesses_in_bounds:
  assumes "addressable G"
  shows "(\<exists>out. printLinkGraph G Title = Inr out)
     \<and> (\<forall>S \<in> set (sections G). \<forall>B \<in> set (blocks S). \<not> isZeroFill B \<longrightarrow>
          (\<forall>a \<in> set (running B). \<not> a < getAddress B \<longrightarrow>
             unat (a - getAddress B) < length (getContent B)))"
proof
  show "\<exists>out. printLinkGraph G Title = Inr out"
    by (rule printLinkGraph_total [OF addressable_well_formed [OF assms]])
next
  show "\<forall>S \<in> set (sections G). \<forall>B \<in> set (blocks S). \<not> isZeroFill B \<longrightarrow>
          (\<forall>a \<in> set (running B). \<not> a < getAddress B \<longrightarrow>
             unat (a - getAddress B) < length (getContent B))"
  proof (intro ballI impI)
    fix S B a
    assume "S \<in> set (sections G)" and "B \<in> set (blocks S)" and "\<not> isZeroFill B"
      and a: "a \<in> set (running B)" and ge: "\<not> a < getAddress B"
    with assms have "content_fits B" by (auto simp add: addressable_def list_all_iff)
    then have "unat (getSize B) \<le> length (getContent B)" by (simp add: content_fits_def)
    from offset_in_buffer [OF this a ge]
    show "unat (a - getAddress B) < length (getContent B)" .
  qed
qed

theorem accesses_in_bounds_witness:
  "addressable exampleGraph \<and> (\<exists>out. printLinkGraph exampleGraph ''Before fixup:'' = Inr out)"
  using accesses_in_bounds [of exampleGraph "''Before fixup:''"]
  by (simp add: addressable_def exampleGraph_def literalBlock_def straddlingBlock_def
      content_fits_def no_wrap_def)

section \<open>Rendering twice\<close>

text \<open>
  Claim C6. \<open>printLinkGraph\<close> leaves the link graph as it was, and a second call on
  the state the first one left writes the same sequence again: the stream ends up with
  the output of the first call followed by an identical copy.
\<close>

theorem render_twice:
  assumes "well_formed (linkGraph s)"
  shows "\<exists>s1 s2 out. printLinkGraph_dbgs Title s = Inr s1
       \<and> printLinkGraph_dbgs Title s1 = Inr s2
       \<and> linkGraph s1 = linkGraph s \<and> linkGraph s2 = linkGraph s
       \<and> dbgs s1 = dbgs s @ out \<and> dbgs s2 = dbgs s1 @ out
       \<and> render_text fmt (dbgs s2)
           = render_text fmt (dbgs s) @ render_text fmt out @ render_text fmt out"
proof -
  from printLinkGraph_total [OF assms]
  obtain out where out: "printLinkGraph (linkGraph s) Title = Inr out" by blast
  define s1 where "s1 = s\<lparr>dbgs := dbgs s @ out\<rparr>"
  define s2 where "s2 = s1\<lparr>dbgs := dbgs s1 @ out\<rparr>"
  have g1: "linkGraph s1 = linkGraph s" by (simp add: s1_def)
  have g2: "linkGraph s2 = linkGraph s" by (simp add: s2_def s1_def)
  have r1: "printLinkGraph_dbgs Title s = Inr s1"
    by (simp add: printLinkGraph_dbgs_def out s1_def)
  have r2: "printLinkGraph_dbgs Title s1 = Inr s2"
    by (simp add: printLinkGraph_dbgs_def g1 out s2_def)
  have d1: "dbgs s1 = dbgs s @ out" by (simp add: s1_def)
  have d2: "dbgs s2 = dbgs s1 @ out" by (simp add: s2_def)
  have t: "render_text fmt (dbgs s2)
           = render_text fmt (dbgs s) @ render_text fmt out @ render_text fmt out"
    by (simp add: d1 d2 render_text_def)
  from r1 r2 g1 g2 d1 d2 t show ?thesis by blast
qed

theorem render_twice_witness:
  "well_formed (linkGraph \<lparr>linkGraph = exampleGraph, dbgs = []\<rparr>)
   \<and> (\<exists>s1 s2 out. printLinkGraph_dbgs ''After fixup:'' \<lparr>linkGraph = exampleGraph, dbgs = []\<rparr> = Inr s1
       \<and> printLinkGraph_dbgs ''After fixup:'' s1 = Inr s2
       \<and> linkGraph s1 = exampleGraph \<and> linkGraph s2 = exampleGraph
       \<and> dbgs s1 = out \<and> dbgs s2 = out @ out)"
  using render_twice [where s = "\<lparr>linkGraph = exampleGraph, dbgs = []\<rparr>"
      and Title = "''After fixup:''" and fmt = "\<lambda>a. []"]
  by (auto simp add: well_formed_def exampleGraph_def literalBlock_def straddlingBlock_def content_fits_def)

section \<open>The blank line after a dump\<close>








section \<open>Configuring the passes\<close>

lemma modifyPassConfig_appends:
  "appends modifyPassConfig [printLinkGraph_dbgs ''Before fixup:''] [printLinkGraph_dbgs ''After fixup:'']"
  by (simp add: appends_def modifyPassConfig_def Let_def)

lemma configurePasses_Cons: "configurePasses (P # Ps) C = configurePasses Ps (P C)"
  by (simp add: configurePasses_def)

lemma configurePasses_appends:
  "list_all2 (\<lambda>P c. appends P (fst c) (snd c)) Plugins contribs \<Longrightarrow>
   configurePasses Plugins Config
   = Config\<lparr>PostPrunePasses := PostPrunePasses Config @ concat (map fst contribs),
            PostFixupPasses := PostFixupPasses Config @ concat (map snd contribs)\<rparr>"
proof (induction Plugins contribs arbitrary: Config rule: list_all2_induct)
  case Nil
  then show ?case by (simp add: configurePasses_def)
next
  case (Cons P Plugins c contribs)
  from Cons.hyps(1) have "P Config = Config\<lparr>PostPrunePasses := PostPrunePasses Config @ fst c,
            PostFixupPasses := PostFixupPasses Config @ snd c\<rparr>"
    by (simp add: appends_def)
  then show ?case by (simp add: configurePasses_Cons Cons.IH)
qed

text \<open>
  Claim C7. When each registered plugin's hook appends its passes and does nothing else,
  \<open>configurePasses\<close> yields the given configuration extended by the contributions
  of the plugins in registration order, on the pre-fixup list and on the post-fixup list;
  nothing that was there is removed or moved. The hook of the example plugin is such a
  hook: it appends exactly one pass to each list. The hooks return a configuration and
  nothing else, so there is no error to return. The source pushes onto the pre-fixup list
  first; the two lists are separate fields, so the result does not show that order.
\<close>

theorem configurePasses_in_order:
  assumes "list_all2 (\<lambda>P c. appends P (fst c) (snd c)) Plugins contribs"
  shows "configurePasses Plugins Config
     = Config\<lparr>PostPrunePasses := PostPrunePasses Config @ concat (map fst contribs),
              PostFixupPasses := PostFixupPasses Config @ concat (map snd contribs)\<rparr>
   \<and> appends modifyPassConfig [printLinkGraph_dbgs ''Before fixup:'']
        [printLinkGraph_dbgs ''After fixup:'']"
  using configurePasses_appends [OF assms] modifyPassConfig_appends by simp

theorem configurePasses_in_order_witness:
  "list_all2 (\<lambda>P c. appends P (fst c) (snd c)) [modifyPassConfig, modifyPassConfig]
     [([printLinkGraph_dbgs ''Before fixup:''], [printLinkGraph_dbgs ''After fixup:'']),
      ([printLinkGraph_dbgs ''Before fixup:''], [printLinkGraph_dbgs ''After fixup:''])]
   \<and> configurePasses [modifyPassConfig, modifyPassConfig] emptyConfig
     = \<lparr>PostPrunePasses = [printLinkGraph_dbgs ''Before fixup:'', printLinkGraph_dbgs ''Before fixup:''],
        PostFixupPasses = [printLinkGraph_dbgs ''After fixup:'', printLinkGraph_dbgs ''After fixup:'']\<rparr>"
proof -
  have h: "list_all2 (\<lambda>P c. appends P (fst c) (snd c)) [modifyPassConfig, modifyPassConfig]
     [([printLinkGraph_dbgs ''Before fixup:''], [printLinkGraph_dbgs ''After fixup:'']),
      ([printLinkGraph_dbgs ''Before fixup:''], [printLinkGraph_dbgs ''After fixup:''])]"
    by (simp add: modifyPassConfig_appends)
  from configurePasses_in_order [OF h, of emptyConfig] h show ?thesis
    by (simp add: emptyConfig_def)
qed

end
